theory Spec2Isabelle
  imports Complex_Main "HOL-Library.Sublist" "HOL-Library.Multiset"
begin

section \<open>Strings\<close>

text \<open>
  A Python \<open>str\<close> is modelled as a \<open>string\<close> holding its UTF-8 encoding. The operations
  the program uses on strings (\<open>startswith\<close>, \<open>in\<close>, \<open>split\<close>, \<open>rstrip\<close>, \<open>+\<close>) give the
  same answers on the encodings as on the code points, since UTF-8 is prefix free and
  self-synchronising. The Cyrillic namespace names of the source are written out as bytes.
\<close>

text \<open>\<open>s.split(sep)\<close> for a non-empty separator: the pieces between the occurrences
  of \<open>sep\<close>, found from the left without overlap. \<open>acc\<close> holds, reversed, the characters of
  the piece being read.\<close>

function split_from :: "string \<Rightarrow> string \<Rightarrow> string \<Rightarrow> string list" where
  "split_from sep acc s =
     (if sep \<noteq> [] \<and> prefix sep s then rev acc # split_from sep [] (drop (length sep) s)
      else (case s of
              [] \<Rightarrow> [rev acc]
            | c # cs \<Rightarrow> split_from sep (c # acc) cs))"
  by pat_completeness auto
termination
  by (relation "measure (\<lambda>(sep, acc, s). length s)") (auto simp: prefix_def)

declare split_from.simps [simp del]

definition str_split :: "string \<Rightarrow> string \<Rightarrow> string list" where
  "str_split s sep = split_from sep [] s"

section \<open>Link classifier\<close>

definition excluded_prefixes :: "string list" where
  "excluded_prefixes =
     [''File:'', ''Category:'', ''Template:'', ''Help:'', ''Special:'',
      ''User:'', ''Wikipedia:'', ''Talk:'', ''User_talk:'', ''Wikipedia_talk:'',
      ''Template_talk:'', ''Help_talk:'', ''Category_talk:'', ''Portal:'',
      [CHR 0xD0, CHR 0xA4, CHR 0xD0, CHR 0xB0, CHR 0xD0, CHR 0xB9, CHR 0xD0, CHR 0xBB] @ '':'',
      [CHR 0xD0, CHR 0x9A, CHR 0xD0, CHR 0xB0, CHR 0xD1, CHR 0x82, CHR 0xD0, CHR 0xB5,
       CHR 0xD0, CHR 0xB3, CHR 0xD0, CHR 0xBE, CHR 0xD1, CHR 0x80, CHR 0xD0, CHR 0xB8,
       CHR 0xD1, CHR 0x8F] @ '':'',
      [CHR 0xD0, CHR 0xA8, CHR 0xD0, CHR 0xB0, CHR 0xD0, CHR 0xB1, CHR 0xD0, CHR 0xBB,
       CHR 0xD0, CHR 0xBE, CHR 0xD0, CHR 0xBD] @ '':'',
      [CHR 0xD0, CHR 0xA1, CHR 0xD0, CHR 0xBF, CHR 0xD1, CHR 0x80, CHR 0xD0, CHR 0xB0,
       CHR 0xD0, CHR 0xB2, CHR 0xD0, CHR 0xBA, CHR 0xD0, CHR 0xB0] @ '':'',
      [CHR 0xD0, CHR 0xA3, CHR 0xD1, CHR 0x87, CHR 0xD0, CHR 0xB0, CHR 0xD1, CHR 0x81,
       CHR 0xD1, CHR 0x82, CHR 0xD0, CHR 0xBD, CHR 0xD0, CHR 0xB8, CHR 0xD0, CHR 0xBA] @ '':'',
      [CHR 0xD0, CHR 0x9E, CHR 0xD0, CHR 0xB1, CHR 0xD1, CHR 0x81, CHR 0xD1, CHR 0x83,
       CHR 0xD0, CHR 0xB6, CHR 0xD0, CHR 0xB4, CHR 0xD0, CHR 0xB5, CHR 0xD0, CHR 0xBD,
       CHR 0xD0, CHR 0xB8, CHR 0xD0, CHR 0xB5] @ '':'',
      [CHR 0xD0, CHR 0xA1, CHR 0xD0, CHR 0xBB, CHR 0xD1, CHR 0x83, CHR 0xD0, CHR 0xB6,
       CHR 0xD0, CHR 0xB5, CHR 0xD0, CHR 0xB1, CHR 0xD0, CHR 0xBD, CHR 0xD0, CHR 0xB0,
       CHR 0xD1, CHR 0x8F] @ '':'',
      [CHR 0xD0, CHR 0x9F, CHR 0xD0, CHR 0xBE, CHR 0xD1, CHR 0x80, CHR 0xD1, CHR 0x82,
       CHR 0xD0, CHR 0xB0, CHR 0xD0, CHR 0xBB] @ '':'']"

text \<open>The loop over the excluded prefixes: the href starts with \<open>/wiki/\<close> followed by
  one of the prefixes of the list.\<close>

fun starts_with_excluded :: "string list \<Rightarrow> string \<Rightarrow> bool" where
  "starts_with_excluded [] href = False"
| "starts_with_excluded (p # ps) href =
     (if prefix (''/wiki/'' @ p) href then True else starts_with_excluded ps href)"

lemma split_from_nonempty: "split_from sep acc s \<noteq> []"
  by (induction sep acc s rule: split_from.induct)
     (subst split_from.simps, auto split: list.splits)

lemma split_from_last_le:
  "length (last (split_from sep acc s)) \<le> length acc + length s"
proof (induction sep acc s rule: split_from.induct)
  case (1 sep acc s)
  show ?case
  proof (cases "sep \<noteq> [] \<and> prefix sep s")
    case True
    then have "last (split_from sep acc s) = last (split_from sep [] (drop (length sep) s))"
      using split_from_nonempty [of sep "[]" "drop (length sep) s"]
      by (subst split_from.simps) simp
    with "1.IH"(1) True show ?thesis by simp
  next
    case False
    show ?thesis
    proof (cases s)
      case Nil
      with False show ?thesis by (subst split_from.simps) simp
    next
      case (Cons c cs)
      with False "1.IH"(2) [of c cs] show ?thesis
        by (subst split_from.simps) auto
    qed
  qed
qed

lemma split_from_last_length:
  "sep \<noteq> [] \<Longrightarrow> sublist sep s \<Longrightarrow>
     length (last (split_from sep acc s)) + length sep \<le> length s"
proof (induction sep acc s rule: split_from.induct)
  case (1 sep acc s)
  show ?case
  proof (cases "prefix sep s")
    case True
    have step: "last (split_from sep acc s) = last (split_from sep [] (drop (length sep) s))"
      using True "1.prems"(1) split_from_nonempty [of sep "[]" "drop (length sep) s"]
      by (subst split_from.simps) simp
    have len: "length sep \<le> length s"
      using True by (rule prefix_length_le)
    from split_from_last_le [of sep "[]" "drop (length sep) s"] step len
    show ?thesis by simp
  next
    case False
    with "1.prems" obtain c cs where s: "s = c # cs"
      by (cases s) auto
    with False "1.prems" have sub: "sublist sep cs"
      by (simp add: sublist_Cons_right)
    have "last (split_from sep acc s) = last (split_from sep (c # acc) cs)"
      using False s by (subst split_from.simps) simp
    with "1.IH"(2) [of c cs] False s sub "1.prems"(1) show ?thesis
      by simp
  qed
qed

function is_valid_wikipedia_link :: "string \<Rightarrow> string \<Rightarrow> bool" where
  "is_valid_wikipedia_link href wiki_domain =
     (if href = [] then False
      else if prefix ''/wiki/'' href then
        (if CHR ''#'' \<in> set href then False
         else if starts_with_excluded excluded_prefixes href then False
         else True)
      else if sublist wiki_domain href \<and> sublist ''/wiki/'' href then
        is_valid_wikipedia_link (last (str_split href ''/wiki/'')) wiki_domain
      else False)"
  by pat_completeness auto
termination
proof (relation "measure (\<lambda>(href, wiki_domain). length href)")
  show "wf (measure (\<lambda>(href, wiki_domain). length href))"
    by simp
next
  fix href wiki_domain :: string
  assume "sublist wiki_domain href \<and> sublist ''/wiki/'' href"
  then have "length (last (split_from ''/wiki/'' [] href)) + length ''/wiki/'' \<le> length href"
    by (intro split_from_last_length) simp_all
  then show "((last (str_split href ''/wiki/''), wiki_domain), (href, wiki_domain))
               \<in> measure (\<lambda>(href, wiki_domain). length href)"
    by (simp add: str_split_def)
qed

declare is_valid_wikipedia_link.simps [simp del]

section \<open>Rate-limited fetcher\<close>

text \<open>What a call can do instead of returning: raise one of the exceptions below, or wait
  for ever for a slot of the semaphore (the program has one thread, so nobody releases it).
  \<open>LocationParseError\<close> stands for the exceptions of \<open>session.get\<close> that are not a
  \<open>requests.RequestException\<close>: urllib3 raises it for a host name such as \<open>a..b\<close>, and
  requests lets it through.\<close>

datatype error = ValueError | IndexError | BlocksForever | LocationParseError

text \<open>What \<open>session.get\<close> does with a GET request: it raises a
  \<open>requests.RequestException\<close> (a connection error, a timeout), it raises an exception of
  another class, or it returns a response with its status code and text.\<close>

datatype response = Transport_Error | Other_Exception | Http_Response nat string

text \<open>The network is a parameter: at a time, after the requests already sent, a request to
  a URL takes some time and gives a response.\<close>

type_synonym network = "real \<Rightarrow> string list \<Rightarrow> string \<Rightarrow> real \<times> response"

text \<open>The fields of \<open>WikipediaPathFinder\<close> that the program reads and writes (the session
  only carries a header), with the two parts of the world it acts on: the clock read by
  \<open>time.time()\<close> and advanced by \<open>time.sleep\<close>, and the requests sent over the network.
  Times are real numbers; the rounding of Python's floats is not modelled.\<close>

record finder =
  rate_limit :: int
  cache :: "string \<rightharpoonup> string"
  semaphore :: int
  request_times :: "real list"
  clock :: real
  sent :: "string list"


text \<open>The \<open>while\<close> loop of \<open>_rate_limit_request\<close>: drop from the left while the first
  timestamp is more than a second before \<open>current_time\<close>.\<close>

fun popleft_stale :: "real \<Rightarrow> real list \<Rightarrow> real list" where
  "popleft_stale current_time [] = []"
| "popleft_stale current_time (x # xs) =
     (if current_time - x > 1 then popleft_stale current_time xs else x # xs)"

definition rate_limit_request :: "finder \<Rightarrow> error + finder" where
  "rate_limit_request s =
     (let current_time = clock s;
          times = popleft_stale current_time (request_times s)
      in if int (length times) \<ge> rate_limit s then
           (case times of
              [] \<Rightarrow> Inl IndexError
            | oldest # _ \<Rightarrow>
                let sleep_time = 1 - (current_time - oldest)
                in Inr (s\<lparr>request_times := times @ [current_time],
                          clock := (if sleep_time > 0 then clock s + sleep_time else clock s)\<rparr>))
         else Inr (s\<lparr>request_times := times @ [current_time]\<rparr>))"

text \<open>\<open>raise_for_status\<close> raises \<open>HTTPError\<close>, a \<open>RequestException\<close>, for the client and
  server error codes and for no other status.\<close>

definition raise_for_status :: "nat \<Rightarrow> bool" where
  "raise_for_status status \<longleftrightarrow> 400 \<le> status \<and> status < 600"

text \<open>\<open>get_page_content\<close>: the result is the returned text or \<open>None\<close>, and the new state.
  The semaphore is taken on entry of the \<open>with\<close> block and given back on every way out
  of it. The \<open>except\<close> clause catches \<open>requests.RequestException\<close> only: any other
  exception of \<open>session.get\<close> leaves the function. The \<open>print\<close> of the \<open>except\<close> clause
  is left out (the standard output is taken to accept the message).\<close>

definition get_page_content :: "network \<Rightarrow> finder \<Rightarrow> string \<Rightarrow> error + (string option \<times> finder)" where
  "get_page_content net s url =
     (case cache s url of
        Some text \<Rightarrow> Inr (Some text, s)
      | None \<Rightarrow>
          if semaphore s \<le> 0 then Inl BlocksForever
          else
            (case rate_limit_request (s\<lparr>semaphore := semaphore s - 1\<rparr>) of
               Inl e \<Rightarrow> Inl e
             | Inr s1 \<Rightarrow>
                 let (elapsed, resp) = net (clock s1) (sent s1) url;
                     s2 = s1\<lparr>clock := clock s1 + elapsed, sent := sent s1 @ [url]\<rparr>
                 in (case resp of
                       Transport_Error \<Rightarrow> Inr (None, s2\<lparr>semaphore := semaphore s2 + 1\<rparr>)
                     | Other_Exception \<Rightarrow> Inl LocationParseError
                     | Http_Response status text \<Rightarrow>
                         if raise_for_status status
                         then Inr (None, s2\<lparr>semaphore := semaphore s2 + 1\<rparr>)
                         else Inr (Some text,
                                   s2\<lparr>cache := (cache s2)(url \<mapsto> text),
                                      semaphore := semaphore s2 + 1\<rparr>))))"

text \<open>A run of fetches, one after the other, as a caller of \<open>get_page_content\<close> makes
  them; it is used to state what holds of every later fetch.\<close>

fun fetches :: "network \<Rightarrow> finder \<Rightarrow> string list \<Rightarrow> error + finder" where
  "fetches net s [] = Inr s"
| "fetches net s (url # urls) =
     (case get_page_content net s url of
        Inl e \<Rightarrow> Inl e
      | Inr (r, s') \<Rightarrow> fetches net s' urls)"

text \<open>A network for the examples: every request takes a tenth of a second; the URL \<open>a\<close>
  has the text \<open>A\<close>, the URL \<open>b\<close> is answered with status 404, the URL \<open>m\<close> with status
  300 and a text, a request to the host \<open>a..b\<close> raises \<open>LocationParseError\<close>, and nothing
  else can be reached. Then two new finders, of rate limit 2 and 1.\<close>

definition example_net :: network where
  "example_net time history url =
     (1 / 10,
      if url = ''a'' then Http_Response 200 ''A''
      else if url = ''b'' then Http_Response 404 ''B''
      else if url = ''m'' then Http_Response 300 ''M''
      else if url = ''http://a..b/x'' then Other_Exception
      else Transport_Error)"

definition example_finder :: finder where
  "example_finder = \<lparr>rate_limit = 2, cache = Map.empty, semaphore = 2, request_times = [],
     clock = 0, sent = []\<rparr>"

definition slow_finder :: finder where
  "slow_finder = \<lparr>rate_limit = 1, cache = Map.empty, semaphore = 1, request_times = [],
     clock = 0, sent = []\<rparr>"

section \<open>URL normalizer\<close>

text \<open>
  \<open>normalize_url\<close> calls \<open>urlparse\<close> of Python's \<open>urllib.parse\<close>, which is not part of the
  repository. It is modelled here after the library's source (CPython 3.11, functions
  \<open>urlsplit\<close>, \<open>_splitnetloc\<close>, \<open>urlparse\<close>, \<open>_splitparams\<close>), for a \<open>str\<close> argument and the
  default arguments \<open>scheme=''\<close> and \<open>allow_fragments=True\<close>. Two checks of the library are
  not modelled and are parameters: the validation of a bracketed host (an IP literal) and
  the check of a non-ASCII host name under NFKC normalisation. Both only decide whether
  \<open>ValueError\<close> is raised.
\<close>

record library =
  bracketed_host_ok :: "string \<Rightarrow> bool"
  nfkc_ok :: "string \<Rightarrow> bool"

definition c0_control_or_space :: "char \<Rightarrow> bool" where
  "c0_control_or_space c \<longleftrightarrow> (of_char c :: nat) \<le> 32"

definition unsafe_url_byte :: "char \<Rightarrow> bool" where
  "unsafe_url_byte c \<longleftrightarrow> c = CHR 0x09 \<or> c = CHR 0x0D \<or> c = CHR 0x0A"

definition ascii_upper :: "char \<Rightarrow> bool" where
  "ascii_upper c \<longleftrightarrow> 65 \<le> (of_char c :: nat) \<and> (of_char c :: nat) \<le> 90"

definition ascii_alpha :: "char \<Rightarrow> bool" where
  "ascii_alpha c \<longleftrightarrow> ascii_upper c \<or> 97 \<le> (of_char c :: nat) \<and> (of_char c :: nat) \<le> 122"

definition ascii_digit :: "char \<Rightarrow> bool" where
  "ascii_digit c \<longleftrightarrow> 48 \<le> (of_char c :: nat) \<and> (of_char c :: nat) \<le> 57"

definition scheme_chars :: "char \<Rightarrow> bool" where
  "scheme_chars c \<longleftrightarrow>
     ascii_alpha c \<or> ascii_digit c \<or> c = CHR ''+'' \<or> c = CHR ''-'' \<or> c = CHR ''.''"

definition isascii :: "string \<Rightarrow> bool" where
  "isascii s = list_all (\<lambda>c. (of_char c :: nat) < 128) s"

text \<open>\<open>str.lower\<close>, on the ASCII letters (it is applied to scheme characters only).\<close>

definition lower :: "string \<Rightarrow> string" where
  "lower s = map (\<lambda>c. if ascii_upper c then char_of ((of_char c :: nat) + 32) else c) s"

definition rstrip :: "string \<Rightarrow> char \<Rightarrow> string" where
  "rstrip s c = rev (dropWhile (\<lambda>x. x = c) (rev s))"

definition uses_params :: "string list" where
  "uses_params = ['''', ''ftp'', ''hdl'', ''prospero'', ''http'', ''imap'', ''https'',
     ''shttp'', ''rtsp'', ''rtsps'', ''rtspu'', ''sip'', ''sips'', ''mms'', ''sftp'', ''tel'']"

record split_result =
  scheme :: string
  netloc :: string
  path :: string
  query :: string
  fragment :: string

record parse_result = split_result +
  params :: string

text \<open>The first statements of \<open>urlsplit\<close>: leading control characters and spaces are
  stripped, then tabs and line ends are removed everywhere.\<close>

definition clean_url :: "string \<Rightarrow> string" where
  "clean_url url = filter (\<lambda>c. \<not> unsafe_url_byte c) (dropWhile c0_control_or_space url)"

text \<open>The scheme: the text before the first colon, if there is one, it is not empty, the
  URL starts with an ASCII letter and that text has scheme characters only.\<close>

definition has_scheme :: "string \<Rightarrow> bool" where
  "has_scheme url \<longleftrightarrow>
     CHR '':'' \<in> set url \<and> takeWhile (\<lambda>c. c \<noteq> CHR '':'') url \<noteq> [] \<and> ascii_alpha (hd url)
     \<and> list_all scheme_chars (takeWhile (\<lambda>c. c \<noteq> CHR '':'') url)"

definition split_scheme :: "string \<Rightarrow> string \<times> string" where
  "split_scheme url =
     (if has_scheme url
      then (lower (takeWhile (\<lambda>c. c \<noteq> CHR '':'') url), tl (dropWhile (\<lambda>c. c \<noteq> CHR '':'') url))
      else ([], url))"

text \<open>\<open>_splitnetloc(url, 2)\<close>: the host part runs from position 2 to the first of the
  delimiters \<open>/\<close>, \<open>?\<close>, \<open>#\<close>.\<close>

definition netloc_delim :: "char \<Rightarrow> bool" where
  "netloc_delim c \<longleftrightarrow> c = CHR ''/'' \<or> c = CHR ''?'' \<or> c = CHR ''#''"

definition splitnetloc :: "string \<Rightarrow> string \<times> string" where
  "splitnetloc url =
     (takeWhile (\<lambda>c. \<not> netloc_delim c) (drop 2 url),
      dropWhile (\<lambda>c. \<not> netloc_delim c) (drop 2 url))"

text \<open>\<open>s.split(c, 1)\<close> when \<open>c\<close> occurs in \<open>s\<close>, and \<open>(s, '')\<close> otherwise.\<close>

definition split_once :: "char \<Rightarrow> string \<Rightarrow> string \<times> string" where
  "split_once c s =
     (if c \<in> set s then (takeWhile (\<lambda>x. x \<noteq> c) s, tl (dropWhile (\<lambda>x. x \<noteq> c) s))
      else (s, []))"

text \<open>The checks of the host part that raise \<open>ValueError\<close>.\<close>

definition netloc_rejected :: "library \<Rightarrow> string \<Rightarrow> bool" where
  "netloc_rejected lib loc \<longleftrightarrow>
     (CHR ''['' \<in> set loc \<and> CHR '']'' \<notin> set loc)
     \<or> (CHR '']'' \<in> set loc \<and> CHR ''['' \<notin> set loc)
     \<or> (CHR ''['' \<in> set loc \<and> CHR '']'' \<in> set loc
         \<and> \<not> bracketed_host_ok lib
               (takeWhile (\<lambda>c. c \<noteq> CHR '']'') (tl (dropWhile (\<lambda>c. c \<noteq> CHR ''['') loc))))
     \<or> (loc \<noteq> [] \<and> \<not> isascii loc \<and> \<not> nfkc_ok lib loc)"

text \<open>The host part is split off when the rest starts with two slashes.\<close>

definition netloc_part :: "string \<Rightarrow> string \<times> string" where
  "netloc_part url = (if take 2 url = ''//'' then splitnetloc url else ([], url))"

definition urlsplit :: "library \<Rightarrow> string \<Rightarrow> error + split_result" where
  "urlsplit lib url =
     (case split_scheme (clean_url url) of (sch, url1) \<Rightarrow>
      (case netloc_part url1 of (loc, url2) \<Rightarrow>
       if netloc_rejected lib loc then Inl ValueError
       else
         (case split_once (CHR ''#'') url2 of (url3, frag) \<Rightarrow>
          (case split_once (CHR ''?'') url3 of (url4, qry) \<Rightarrow>
             Inr \<lparr>scheme = sch, netloc = loc, path = url4, query = qry,
                  fragment = frag\<rparr>))))"

text \<open>\<open>_splitparams\<close>: the parameters start at the first \<open>;\<close> of the last segment of the
  path.\<close>

definition splitparams :: "string \<Rightarrow> string \<times> string" where
  "splitparams url =
     (let segment = rev (takeWhile (\<lambda>c. c \<noteq> CHR ''/'') (rev url));
          before = rev (dropWhile (\<lambda>c. c \<noteq> CHR ''/'') (rev url))
      in if CHR ''/'' \<in> set url \<and> CHR '';'' \<notin> set segment then (url, [])
         else (before @ takeWhile (\<lambda>c. c \<noteq> CHR '';'') segment,
               tl (dropWhile (\<lambda>c. c \<noteq> CHR '';'') segment)))"

definition urlparse :: "library \<Rightarrow> string \<Rightarrow> error + parse_result" where
  "urlparse lib url =
     (case urlsplit lib url of
        Inl e \<Rightarrow> Inl e
      | Inr r \<Rightarrow>
          (case (if scheme r \<in> set uses_params \<and> CHR '';'' \<in> set (path r)
                 then splitparams (path r) else (path r, [])) of (url1, ps) \<Rightarrow>
             Inr \<lparr>scheme = scheme r, netloc = netloc r, path = url1, query = query r,
                  fragment = fragment r, params = ps\<rparr>))"

definition normalize_url :: "library \<Rightarrow> string \<Rightarrow> error + string" where
  "normalize_url lib url =
     (case urlparse lib url of
        Inl e \<Rightarrow> Inl e
      | Inr parsed \<Rightarrow>
          Inr (rstrip (scheme parsed @ ''://'' @ netloc parsed @ path parsed) (CHR ''/'')))"

text \<open>A library for the examples; the examples have no bracketed and no non-ASCII host,
  so that it is never asked.\<close>

definition strict_library :: library where
  "strict_library = \<lparr>bracketed_host_ok = (\<lambda>h. False), nfkc_ok = (\<lambda>n. False)\<rparr>"


text \<open>Two notions used to state the properties of \<open>normalize_url\<close>: the last segment of
  a path, which is the text after its last \<open>/\<close>, and the path cut at the first \<open>;\<close> of its
  last segment.\<close>

definition last_segment :: "string \<Rightarrow> string" where
  "last_segment url = rev (takeWhile (\<lambda>c. c \<noteq> CHR ''/'') (rev url))"



definition lower_char :: "char \<Rightarrow> char" where
  "lower_char c = (if ascii_upper c then char_of ((of_char c :: nat) + 32) else c)"

section \<open>Path finder\<close>

text \<open>
  \<open>extract_wikipedia_links\<close> parses the document with BeautifulSoup, keeps the hrefs that
  \<open>_is_valid_wikipedia_link\<close> accepts and resolves them with \<open>urljoin\<close>; the parser and
  \<open>urljoin\<close> are not part of the repository, and the result is a Python set, which the
  \<open>for\<close> loop of \<open>find_path\<close> visits in an order that the program does not choose. It is
  a parameter of the search: a function from the text of a page and its URL to the links
  found, in the order in which the loop visits them, or to an exception (\<open>urlparse\<close> of
  the URL of the page and \<open>urljoin\<close> can raise \<open>ValueError\<close>).
\<close>

type_synonym extractor = "string \<Rightarrow> string \<Rightarrow> error + string list"

text \<open>The ways out of the \<open>for\<close> loop over the links of one page: an exception of
  \<open>normalize_url\<close>, the \<open>return\<close> of a path, or the end of the loop with the visited set
  and the queue as they are then.\<close>

datatype scan_result =
  Raised error
| Found "string list"
| Continue "string set" "(string \<times> string list) list"

fun scan_links ::
  "library \<Rightarrow> string \<Rightarrow> int \<Rightarrow> string list \<Rightarrow> string list \<Rightarrow> string set
     \<Rightarrow> (string \<times> string list) list \<Rightarrow> scan_result" where
  "scan_links lib target_url max_depth pth [] visited queue = Continue visited queue"
| "scan_links lib target_url max_depth pth (link # links) visited queue =
     (case normalize_url lib link of
        Inl e \<Rightarrow> Raised e
      | Inr normalized_link \<Rightarrow>
          if normalized_link = target_url then Found (pth @ [normalized_link])
          else if normalized_link \<notin> visited \<and> int (length pth) < max_depth
          then scan_links lib target_url max_depth pth links (insert normalized_link visited)
                 (queue @ [(normalized_link, pth @ [normalized_link])])
          else scan_links lib target_url max_depth pth links visited queue)"

lemma scan_links_appends:
  "scan_links lib target_url max_depth pth links visited queue = Continue visited' queue' \<Longrightarrow>
     \<exists>new. queue' = queue @ new
       \<and> list_all (\<lambda>node. length (snd node) = Suc (length pth)) new
       \<and> (new = [] \<or> int (length pth) < max_depth)"
proof (induction links arbitrary: visited queue)
  case Nil
  then show ?case by simp
next
  case (Cons link links)
  from Cons.prems obtain nl where nl: "normalize_url lib link = Inr nl" "nl \<noteq> target_url"
    by (auto split: sum.splits if_splits)
  show ?case
  proof (cases "nl \<notin> visited \<and> int (length pth) < max_depth")
    case True
    with Cons.prems nl
    have "scan_links lib target_url max_depth pth links (insert nl visited)
            (queue @ [(nl, pth @ [nl])]) = Continue visited' queue'"
      by simp
    from Cons.IH [OF this] obtain new where
      "queue' = (queue @ [(nl, pth @ [nl])]) @ new"
      "list_all (\<lambda>node. length (snd node) = Suc (length pth)) new"
      by blast
    with True show ?thesis
      by (intro exI [of _ "(nl, pth @ [nl]) # new"]) simp
  next
    case False
    with Cons.prems nl
    have "scan_links lib target_url max_depth pth links visited queue = Continue visited' queue'"
      by auto
    from Cons.IH [OF this] show ?thesis .
  qed
qed

lemma drop_head_mult:
  "(mset (map w queue), mset (map w (node # queue))) \<in> mult less_than"
  by (rule subset_implies_mult) simp

lemma replace_head_mult:
  assumes "\<forall>x\<in>set new. w x < (w node :: nat)"
  shows "(mset (map w (queue @ new)), mset (map w (node # queue))) \<in> mult less_than"
proof -
  have "(mset (map w queue) + mset (map w new), mset (map w queue) + {#w node#})
          \<in> mult less_than"
    by (rule one_step_implies_mult) (use assms in auto)
  then show ?thesis by simp
qed

text \<open>The \<open>while\<close> loop of \<open>find_path\<close>, from the state of the finder, the visited set and
  the queue; the result is the returned path or \<open>None\<close>, and the new state of the finder.
  The \<open>print\<close> calls are left out (the standard output is taken to accept the messages).
  The loop ends because every node that it appends has a path one longer than the node it
  takes off, and no longer than \<open>max_depth\<close>.\<close>

function bfs ::
  "library \<Rightarrow> network \<Rightarrow> extractor \<Rightarrow> string \<Rightarrow> int \<Rightarrow> finder \<Rightarrow> string set
     \<Rightarrow> (string \<times> string list) list \<Rightarrow> error + (string list option \<times> finder)" where
  "bfs lib net extract_links target_url max_depth s visited [] = Inr (None, s)"
| "bfs lib net extract_links target_url max_depth s visited ((current_url, pth) # queue) =
     (if int (length pth) > max_depth
      then bfs lib net extract_links target_url max_depth s visited queue
      else
        (case get_page_content net s current_url of
           Inl e \<Rightarrow> Inl e
         | Inr (content, s') \<Rightarrow>
             (case content of
                None \<Rightarrow> bfs lib net extract_links target_url max_depth s' visited queue
              | Some txt \<Rightarrow>
                  if txt = [] then bfs lib net extract_links target_url max_depth s' visited queue
                  else
                    (case extract_links txt current_url of
                       Inl e \<Rightarrow> Inl e
                     | Inr links \<Rightarrow>
                         (case scan_links lib target_url max_depth pth links visited queue of
                            Raised e \<Rightarrow> Inl e
                          | Found p \<Rightarrow> Inr (Some p, s')
                          | Continue visited' queue' \<Rightarrow>
                              bfs lib net extract_links target_url max_depth s' visited'
                                queue')))))"
  by pat_completeness auto
termination
proof (relation "inv_image (mult less_than)
    (\<lambda>(lib, net, extract_links, target_url, max_depth, s, visited, queue).
       mset (map (\<lambda>node. nat (max_depth + 1 - int (length (snd node)))) queue))", goal_cases)
  case 1
  show ?case by (intro wf_inv_image wf_mult wf_less_than)
next
  case 2
  show ?case by (simp only: in_inv_image prod.case drop_head_mult)
next
  case 3
  show ?case by (simp only: in_inv_image prod.case drop_head_mult)
next
  case 4
  show ?case by (simp only: in_inv_image prod.case drop_head_mult)
next
  case (5 lib net extract_links target_url max_depth s visited current_url pth queue b x y x2
      links x31 x32)
  from scan_links_appends [OF 5(7)] obtain new where new: "x32 = queue @ new"
    "list_all (\<lambda>node. length (snd node) = Suc (length pth)) new"
    "new = [] \<or> int (length pth) < max_depth"
    by blast
  have "\<forall>n\<in>set new. nat (max_depth + 1 - int (length (snd n)))
          < nat (max_depth + 1 - int (length (snd (current_url, pth))))"
  proof
    fix n assume n: "n \<in> set new"
    with new(2) have "length (snd n) = Suc (length pth)" by (simp add: list_all_iff)
    moreover from n new(3) have "int (length pth) < max_depth" by auto
    ultimately show "nat (max_depth + 1 - int (length (snd n)))
          < nat (max_depth + 1 - int (length (snd (current_url, pth))))" by simp
  qed
  then have "(mset (map (\<lambda>node. nat (max_depth + 1 - int (length (snd node)))) (queue @ new)),
      mset (map (\<lambda>node. nat (max_depth + 1 - int (length (snd node)))) ((current_url, pth) # queue)))
        \<in> mult less_than"
    by (rule replace_head_mult)
  then show ?case unfolding new(1) by (simp only: in_inv_image prod.case)
qed

declare bfs.simps [simp del]

text \<open>\<open>find_path\<close>: both URLs are normalized; equal canonical forms give the path of one
  URL at once; otherwise the search starts from the queue that holds the start node, with
  the start marked as visited.\<close>

definition find_path ::
  "library \<Rightarrow> network \<Rightarrow> extractor \<Rightarrow> string \<Rightarrow> string \<Rightarrow> int \<Rightarrow> finder
     \<Rightarrow> error + (string list option \<times> finder)" where
  "find_path lib net extract_links start_url target_url max_depth s =
     (case normalize_url lib start_url of
        Inl e \<Rightarrow> Inl e
      | Inr start \<Rightarrow>
          (case normalize_url lib target_url of
             Inl e \<Rightarrow> Inl e
           | Inr target \<Rightarrow>
               if start = target then Inr (Some [start], s)
               else bfs lib net extract_links target max_depth s {start} [(start, [start])]))"

text \<open>A site for the examples: the page \<open>http://w/a\<close> has the text \<open>A\<close>, with links to
  \<open>http://w/b/\<close> and to itself; the page \<open>http://w/b\<close> has the text \<open>B\<close>, with links to
  \<open>http://w/a/\<close> and \<open>http://w/c\<close>; nothing else can be reached.\<close>

definition site_net :: network where
  "site_net time history url =
     (1 / 10,
      if url = ''http://w/a'' then Http_Response 200 ''A''
      else if url = ''http://w/b'' then Http_Response 200 ''B''
      else Transport_Error)"

definition site_links :: extractor where
  "site_links txt base_url =
     Inr (if txt = ''A'' then [''http://w/b/'', ''http://w/a'']
          else if txt = ''B'' then [''http://w/a/'', ''http://w/c'']
          else [])"

section \<open>Properties of the link classifier\<close>

lemma split_from_last_no_sep:
  "sep \<noteq> [] \<Longrightarrow>
   (\<And>p q. rev acc @ s = p @ q \<Longrightarrow> length p < length acc \<Longrightarrow> \<not> prefix sep q) \<Longrightarrow>
   \<not> sublist sep (last (split_from sep acc s))"
proof (induction sep acc s rule: split_from.induct)
  case (1 sep acc s)
  show ?case
  proof (cases "prefix sep s")
    case True
    have "last (split_from sep acc s) = last (split_from sep [] (drop (length sep) s))"
      using True "1.prems"(1) split_from_nonempty [of sep "[]" "drop (length sep) s"]
      by (subst split_from.simps) simp
    moreover have "\<not> sublist sep (last (split_from sep [] (drop (length sep) s)))"
      using True "1.prems"(1) by (intro "1.IH"(1)) simp_all
    ultimately show ?thesis by simp
  next
    case False
    show ?thesis
    proof (cases s)
      case Nil
      have last: "last (split_from sep acc s) = rev acc"
        using False Nil by (subst split_from.simps) simp
      show ?thesis
      proof
        assume "sublist sep (last (split_from sep acc s))"
        then obtain ps ss where eq: "rev acc = ps @ sep @ ss"
          unfolding last sublist_def by blast
        then have "length (rev acc) = length ps + length sep + length ss"
          by simp
        with "1.prems"(1) have "length ps < length acc"
          by (cases sep) simp_all
        with "1.prems"(2) [of ps "sep @ ss"] eq Nil show False
          by simp
      qed
    next
      case (Cons c cs)
      have last: "last (split_from sep acc s) = last (split_from sep (c # acc) cs)"
        using False Cons by (subst split_from.simps) simp
      have "\<not> sublist sep (last (split_from sep (c # acc) cs))"
      proof (rule "1.IH"(2) [OF _ Cons "1.prems"(1)])
        show "\<not> (sep \<noteq> [] \<and> prefix sep s)" using False by simp
      next
        fix p q
        assume eq: "rev (c # acc) @ cs = p @ q" and len: "length p < length (c # acc)"
        show "\<not> prefix sep q"
        proof (cases "length p < length acc")
          case True
          with "1.prems"(2) [of p q] eq Cons show ?thesis by simp
        next
          case False
          with len have "length p = length (rev acc)" by simp
          with eq have "q = c # cs" by (simp add: append_eq_append_conv)
          with \<open>\<not> prefix sep s\<close> Cons show ?thesis by simp
        qed
      qed
      with last show ?thesis by simp
    qed
  qed
qed

lemma not_wiki_prefix_rejected:
  assumes "\<not> prefix ''/wiki/'' href"
  shows "is_valid_wikipedia_link href wiki_domain = False"
proof -
  let ?r = "last (str_split href ''/wiki/'')"
  have nosub: "\<not> sublist ''/wiki/'' ?r"
    unfolding str_split_def by (rule split_from_last_no_sep) simp_all
  then have nopre: "\<not> prefix ''/wiki/'' ?r"
    using prefix_imp_sublist by blast
  have inner: "is_valid_wikipedia_link ?r wiki_domain = False"
    using nosub nopre by (subst is_valid_wikipedia_link.simps) simp
  show ?thesis
    using assms inner by (subst is_valid_wikipedia_link.simps) simp
qed

text \<open>C6: for every host, the classifier rejects \<open>/wiki/Category:Foo\<close>, accepts
  \<open>/wiki/Foo\<close> and rejects \<open>/wiki/Foo#Bar\<close>.\<close>

theorem C6_classifier_examples:
  "is_valid_wikipedia_link ''/wiki/Category:Foo'' host = False \<and>
   is_valid_wikipedia_link ''/wiki/Foo'' host = True \<and>
   is_valid_wikipedia_link ''/wiki/Foo#Bar'' host = False"
  by (simp add: is_valid_wikipedia_link.simps [of "''/wiki/Category:Foo''"]
        is_valid_wikipedia_link.simps [of "''/wiki/Foo''"]
        is_valid_wikipedia_link.simps [of "''/wiki/Foo#Bar''"] excluded_prefixes_def)

text \<open>C10: for every host, the bare article path prefix \<open>/wiki/\<close>, whose title is empty,
  is classified as a valid article link.\<close>

theorem C10_empty_title_accepted:
  "is_valid_wikipedia_link ''/wiki/'' host = True"
  by (simp add: is_valid_wikipedia_link.simps [of "''/wiki/''"] excluded_prefixes_def)

text \<open>C1: the claim is that a full URL on the site's host with \<open>/wiki/\<close> in its path is
  classified like the bare path, so that \<open>https://en.wikipedia.org/wiki/Foo\<close> is accepted for
  the host \<open>en.wikipedia.org\<close>. The code calls itself on the text after the last
  \<open>/wiki/\<close>, here \<open>Foo\<close>, which no longer starts with \<open>/wiki/\<close>, and answers False
  (as \<open>not_wiki_prefix_rejected\<close> shows, it does so for every href that does not start
  with \<open>/wiki/\<close>).\<close>

theorem C1_full_url_rejected:
  "is_valid_wikipedia_link ''https://en.wikipedia.org/wiki/Foo'' ''en.wikipedia.org'' = False"
  by code_simp

section \<open>Properties of the fetcher\<close>

lemma popleft_stale_sorted:
  "sorted xs \<Longrightarrow> popleft_stale t xs = filter (\<lambda>x. t - x \<le> 1) xs"
proof (induction xs)
  case Nil
  show ?case by simp
next
  case (Cons x xs)
  show ?case
  proof (cases "t - x > 1")
    case True
    with Cons show ?thesis by simp
  next
    case False
    with Cons.prems have "\<forall>y\<in>set (x # xs). t - y \<le> 1"
      by auto
    then have "filter (\<lambda>x. t - x \<le> 1) (x # xs) = x # xs"
      by (simp only: filter_id_conv)
    with False show ?thesis by simp
  qed
qed

lemma rate_limit_request_sorted:
  assumes "0 < rate_limit s" and "sorted (request_times s)"
  shows "rate_limit_request s =
           (let now = clock s;
                window = filter (\<lambda>x. now - x \<le> 1) (request_times s)
            in Inr (s\<lparr>request_times := window @ [now],
                      clock := (if rate_limit s \<le> int (length window)
                                then now + (1 - (now - hd window)) else now)\<rparr>))
         \<and> (rate_limit s \<le> int (length (filter (\<lambda>x. clock s - x \<le> 1) (request_times s)))
              \<longrightarrow> 0 \<le> 1 - (clock s - hd (filter (\<lambda>x. clock s - x \<le> 1) (request_times s))))"
proof -
  let ?w = "filter (\<lambda>x. clock s - x \<le> 1) (request_times s)"
  have w: "popleft_stale (clock s) (request_times s) = ?w"
    using assms(2) by (rule popleft_stale_sorted)
  have full: "0 \<le> 1 - (clock s - hd ?w) \<and> ?w \<noteq> []" if "rate_limit s \<le> int (length ?w)"
  proof -
    from that assms(1) have ne: "?w \<noteq> []" by auto
    then have "hd ?w \<in> set ?w" by (rule hd_in_set)
    then have "clock s - hd ?w \<le> 1" by simp
    with ne show ?thesis by simp
  qed
  show ?thesis
  proof (cases "rate_limit s \<le> int (length ?w)")
    case True
    from full [OF True] obtain x xs where c: "?w = x # xs" and x: "0 \<le> 1 - (clock s - x)"
      by (cases ?w) auto
    have "clock s = clock s + (1 - (clock s - x))" if "\<not> 0 < 1 - (clock s - x)"
      using that x by simp
    with True c x show ?thesis
      unfolding rate_limit_request_def w Let_def by auto
  next
    case False
    then show ?thesis
      unfolding rate_limit_request_def w Let_def by simp
  qed
qed

lemma rate_limit_request_fields:
  "rate_limit_request s = Inr s' \<Longrightarrow>
     cache s' = cache s \<and> sent s' = sent s \<and> semaphore s' = semaphore s
     \<and> rate_limit s' = rate_limit s"
  by (auto simp: rate_limit_request_def Let_def split: if_splits list.splits)

lemma rate_limit_request_returns:
  "0 < rate_limit s \<Longrightarrow> \<exists>s'. rate_limit_request s = Inr s'"
  by (auto simp: rate_limit_request_def Let_def split: list.splits)


lemma get_page_content_hit:
  "cache s url = Some text \<Longrightarrow> get_page_content net s url = Inr (Some text, s)"
  by (simp add: get_page_content_def)

lemma get_page_content_answer:
  assumes "cache s url = None" and "0 < semaphore s"
    and "rate_limit_request (s\<lparr>semaphore := semaphore s - 1\<rparr>) = Inr s1"
  shows "get_page_content net s url =
     (case snd (net (clock s1) (sent s) url) of
        Transport_Error \<Rightarrow>
          Inr (None, s1\<lparr>clock := clock s1 + fst (net (clock s1) (sent s) url),
                         sent := sent s @ [url], semaphore := semaphore s\<rparr>)
      | Other_Exception \<Rightarrow> Inl LocationParseError
      | Http_Response status text \<Rightarrow>
          if 400 \<le> status \<and> status < 600
          then Inr (None, s1\<lparr>clock := clock s1 + fst (net (clock s1) (sent s) url),
                              sent := sent s @ [url], semaphore := semaphore s\<rparr>)
          else Inr (Some text, s1\<lparr>clock := clock s1 + fst (net (clock s1) (sent s) url),
                                   sent := sent s @ [url], cache := (cache s)(url \<mapsto> text),
                                   semaphore := semaphore s\<rparr>))"
proof -
  from rate_limit_request_fields [OF assms(3)]
  have f: "cache s1 = cache s" "sent s1 = sent s" "semaphore s1 = semaphore s - 1"
    by simp_all
  obtain d resp where n: "net (clock s1) (sent s) url = (d, resp)"
    by (cases "net (clock s1) (sent s) url")
  from assms f n show ?thesis
    by (cases resp) (simp_all add: get_page_content_def raise_for_status_def Let_def)
qed

lemma get_page_content_miss:
  assumes "cache s url = None" and "get_page_content net s url = Inr (r, s')"
  shows "\<exists>s1. rate_limit_request (s\<lparr>semaphore := semaphore s - 1\<rparr>) = Inr s1
           \<and> 0 < semaphore s
           \<and> s' = s1\<lparr>clock := clock s1 + fst (net (clock s1) (sent s) url),
                      sent := sent s @ [url],
                      cache := (case r of None \<Rightarrow> cache s | Some text \<Rightarrow> (cache s)(url \<mapsto> text)),
                      semaphore := semaphore s\<rparr>
           \<and> (case snd (net (clock s1) (sent s) url) of
                 Transport_Error \<Rightarrow> r = None
               | Other_Exception \<Rightarrow> False
               | Http_Response status text \<Rightarrow>
                   r = (if 400 \<le> status \<and> status < 600 then None else Some text))"
proof -
  from assms have sem: "0 < semaphore s"
    by (auto simp: get_page_content_def split: if_splits)
  from assms sem obtain s1 where s1: "rate_limit_request (s\<lparr>semaphore := semaphore s - 1\<rparr>) = Inr s1"
    by (auto simp: get_page_content_def split: sum.splits)
  from rate_limit_request_fields [OF s1]
  have f: "cache s1 = cache s" by simp
  from get_page_content_answer [OF assms(1) sem s1, of net] assms(2) f sem s1 show ?thesis
    by (cases "snd (net (clock s1) (sent s) url)") (auto split: if_splits)
qed



lemma get_page_content_cache_mono:
  assumes "get_page_content net s url = Inr (r, s')" and "cache s v = Some text"
  shows "cache s' v = Some text"
proof (cases "cache s url")
  case (Some t)
  with assms show ?thesis by (simp add: get_page_content_def)
next
  case None
  from get_page_content_miss [OF None assms(1)] None assms(2) show ?thesis
    by (cases r) auto
qed

lemma get_page_content_Some_cached:
  assumes "get_page_content net s url = Inr (Some text, s')"
  shows "cache s' url = Some text"
proof (cases "cache s url")
  case (Some t)
  with assms show ?thesis by (simp add: get_page_content_def)
next
  case None
  from get_page_content_miss [OF None assms(1)] show ?thesis
    by auto
qed

lemma fetches_cache_mono:
  "fetches net s urls = Inr s' \<Longrightarrow> cache s v = Some text \<Longrightarrow> cache s' v = Some text"
proof (induction urls arbitrary: s)
  case Nil
  then show ?case by simp
next
  case (Cons url urls)
  from Cons.prems(1) obtain r s1 where g: "get_page_content net s url = Inr (r, s1)"
    and rest: "fetches net s1 urls = Inr s'"
    by (auto split: sum.splits)
  from get_page_content_cache_mono [OF g Cons.prems(2)] Cons.IH [OF rest] show ?case
    by simp
qed

text \<open>C2: the timestamp recorded into the window is not the time at which the request is
  admitted. \<open>_rate_limit_request\<close> appends \<open>current_time\<close>, the reading taken on entry,
  after the wait: with a rate limit of 1, one request in the window at time 0 and the clock
  at 1/2, it waits until time 1 and records 1/2. The window is then pruned too early and
  the limit is not kept. With a rate limit of 1 and requests that take a tenth of a second,
  the first request goes out at time 0 and the second, after the wait, at time 1, returning
  at 11/10 with 1/10 recorded for it; the third call then finds a window whose oldest entry
  is exactly one second old, does not wait, and its request goes out at 11/10, a tenth of
  a second after the second one.\<close>

theorem C2_window_records_entry_time:
  "rate_limit_request
     \<lparr>rate_limit = 1, cache = Map.empty, semaphore = 0, request_times = [0],
      clock = 1 / 2, sent = []\<rparr>
   = Inr \<lparr>rate_limit = 1, cache = Map.empty, semaphore = 0, request_times = [0, 1 / 2],
          clock = 1, sent = []\<rparr>
   \<and> fetches example_net slow_finder [''a'', ''b'']
     = Inr \<lparr>rate_limit = 1, cache = [''a'' \<mapsto> ''A''], semaphore = 1,
            request_times = [0, 1 / 10], clock = 11 / 10, sent = [''a'', ''b'']\<rparr>
   \<and> rate_limit_request
        \<lparr>rate_limit = 1, cache = [''a'' \<mapsto> ''A''], semaphore = 0,
         request_times = [0, 1 / 10], clock = 11 / 10, sent = [''a'', ''b'']\<rparr>
     = Inr \<lparr>rate_limit = 1, cache = [''a'' \<mapsto> ''A''], semaphore = 0,
            request_times = [1 / 10, 11 / 10], clock = 11 / 10, sent = [''a'', ''b'']\<rparr>
   \<and> fetches example_net slow_finder [''a'', ''b'', ''c'']
     = Inr \<lparr>rate_limit = 1, cache = [''a'' \<mapsto> ''A''], semaphore = 1,
            request_times = [1 / 10, 11 / 10], clock = 12 / 10, sent = [''a'', ''b'', ''c'']\<rparr>"
  by (simp add: get_page_content_def example_net_def slow_finder_def rate_limit_request_def
        raise_for_status_def Let_def)

text \<open>What a fetch does. Once a fetch of a URL has returned a text, every later fetch of
  the same string, after any other fetches, returns that text and leaves the state as it
  is, so that no request is sent; the first of them, on a miss, sent exactly one. For a
  finder with a free slot and a positive rate limit, a fetch that misses the cache ends
  according to what \<open>session.get\<close> does: on a \<open>RequestException\<close>, and on a response with a
  status from 400 to 599, it returns \<open>None\<close>, raises nothing and leaves the cache as it
  was; on a response with any other status it returns the text and stores it in the cache
  under the URL; on an exception of another class it raises that exception.\<close>

lemma get_page_content_outcomes:
  "(get_page_content net s u = Inr (Some body, s1) \<longrightarrow> fetches net s1 others = Inr s2 \<longrightarrow>
      get_page_content net s2 u = Inr (Some body, s2)
      \<and> (cache s u = None \<longrightarrow> sent s1 = sent s @ [u]))
   \<and> (0 < rate_limit t \<longrightarrow> 0 < semaphore t \<longrightarrow> cache t v = None \<longrightarrow>
        (\<forall>time. snd (net' time (sent t) v) = resp) \<longrightarrow>
        (case resp of
           Transport_Error \<Rightarrow>
             (\<exists>t'. get_page_content net' t v = Inr (None, t') \<and> cache t' = cache t
                   \<and> sent t' = sent t @ [v])
         | Other_Exception \<Rightarrow> get_page_content net' t v = Inl LocationParseError
         | Http_Response status text \<Rightarrow>
             if 400 \<le> status \<and> status < 600
             then (\<exists>t'. get_page_content net' t v = Inr (None, t') \<and> cache t' = cache t
                        \<and> sent t' = sent t @ [v])
             else (\<exists>t'. get_page_content net' t v = Inr (Some text, t')
                        \<and> cache t' = (cache t)(v \<mapsto> text) \<and> sent t' = sent t @ [v])))"
proof (intro conjI impI)
  assume first: "get_page_content net s u = Inr (Some body, s1)"
    and later: "fetches net s1 others = Inr s2"
  from get_page_content_Some_cached [OF first] have "cache s1 u = Some body" .
  with later have "cache s2 u = Some body" by (rule fetches_cache_mono)
  then show "get_page_content net s2 u = Inr (Some body, s2)"
    by (rule get_page_content_hit)
next
  assume "get_page_content net s u = Inr (Some body, s1)" and "cache s u = None"
  from get_page_content_miss [OF this(2) this(1)] show "sent s1 = sent s @ [u]"
    by auto
next
  assume pos: "0 < rate_limit t" "0 < semaphore t" and miss: "cache t v = None"
    and answer: "\<forall>time. snd (net' time (sent t) v) = resp"
  from pos(1) rate_limit_request_returns [of "t\<lparr>semaphore := semaphore t - 1\<rparr>"]
  obtain t1 where t1: "rate_limit_request (t\<lparr>semaphore := semaphore t - 1\<rparr>) = Inr t1"
    by auto
  from rate_limit_request_fields [OF t1] have f: "cache t1 = cache t" by simp
  from answer have "snd (net' (clock t1) (sent t) v) = resp" by simp
  with get_page_content_answer [OF miss pos(2) t1, of net'] f
  show "case resp of
           Transport_Error \<Rightarrow>
             (\<exists>t'. get_page_content net' t v = Inr (None, t') \<and> cache t' = cache t
                   \<and> sent t' = sent t @ [v])
         | Other_Exception \<Rightarrow> get_page_content net' t v = Inl LocationParseError
         | Http_Response status text \<Rightarrow>
             if 400 \<le> status \<and> status < 600
             then (\<exists>t'. get_page_content net' t v = Inr (None, t') \<and> cache t' = cache t
                        \<and> sent t' = sent t @ [v])
             else (\<exists>t'. get_page_content net' t v = Inr (Some text, t')
                        \<and> cache t' = (cache t)(v \<mapsto> text) \<and> sent t' = sent t @ [v])"
    by (cases resp) simp_all
qed

text \<open>C5: a fetch that fails, by a transport error or a status that is not a success,
  returns a failure without raising and creates no cache entry. \<open>get_page_content\<close> does
  so for a \<open>RequestException\<close> and for the status 404. But the status 300 is not a
  success, and its text is returned and stored in the cache, because \<open>raise_for_status\<close>
  refuses the client and server error codes only; and a request to the host \<open>a..b\<close> fails
  inside \<open>session.get\<close> with \<open>LocationParseError\<close>, which the \<open>except\<close> clause does not
  catch: the call raises.\<close>

theorem C5_failure_not_reported:
  "get_page_content example_net example_finder ''b''
     = Inr (None, \<lparr>rate_limit = 2, cache = Map.empty, semaphore = 2,
                   request_times = [0], clock = 1 / 10, sent = [''b'']\<rparr>)
   \<and> get_page_content example_net example_finder ''m''
     = Inr (Some ''M'', \<lparr>rate_limit = 2, cache = [''m'' \<mapsto> ''M''], semaphore = 2,
                         request_times = [0], clock = 1 / 10, sent = [''m'']\<rparr>)
   \<and> get_page_content example_net example_finder ''http://a..b/x'' = Inl LocationParseError"
  by (simp add: get_page_content_def example_net_def example_finder_def rate_limit_request_def
        raise_for_status_def Let_def)

section \<open>Properties of the URL normalizer\<close>


lemma dropWhile_append_stop: "\<not> P y \<Longrightarrow> dropWhile P (xs @ y # zs) = dropWhile P xs @ y # zs"
  by (induction xs) simp_all

lemma set_tl_subset: "set (tl xs) \<subseteq> set xs"
  by (cases xs) auto

lemma set_clean_url: "set (clean_url u) \<subseteq> set u"
  unfolding clean_url_def using set_dropWhileD by fastforce

lemma split_scheme_subset: "split_scheme u = (sch, r) \<Longrightarrow> set r \<subseteq> set u"
  using set_tl_subset [of "dropWhile (\<lambda>c. c \<noteq> CHR '':'') u"] set_dropWhileD
  by (fastforce simp: split_scheme_def split: if_splits)

lemma netloc_part_subset: "netloc_part r = (loc, r2) \<Longrightarrow> set r2 \<subseteq> set r"
proof -
  assume a: "netloc_part r = (loc, r2)"
  have "set (dropWhile P (drop 2 r)) \<subseteq> set r" for P
    using set_dropWhileD [of _ P "drop 2 r"] set_drop_subset [of 2 r] by blast
  with a show ?thesis
    by (auto simp: netloc_part_def splitnetloc_def split: if_splits)
qed









lemma urlsplit_stages:
  obtains sch r loc r2 where "split_scheme (clean_url u) = (sch, r)" "netloc_part r = (loc, r2)"
    "set r2 \<subseteq> set u"
    "urlsplit lib u =
       (if netloc_rejected lib loc then Inl ValueError
        else Inr \<lparr>scheme = sch, netloc = loc,
                  path = fst (split_once (CHR ''?'') (fst (split_once (CHR ''#'') r2))),
                  query = snd (split_once (CHR ''?'') (fst (split_once (CHR ''#'') r2))),
                  fragment = snd (split_once (CHR ''#'') r2)\<rparr>)"
proof -
  obtain sch r where 1: "split_scheme (clean_url u) = (sch, r)"
    by (cases "split_scheme (clean_url u)")
  obtain loc r2 where 2: "netloc_part r = (loc, r2)"
    by (cases "netloc_part r")
  from split_scheme_subset [OF 1] netloc_part_subset [OF 2] set_clean_url [of u]
  have 3: "set r2 \<subseteq> set u" by blast
  have 4: "urlsplit lib u =
       (if netloc_rejected lib loc then Inl ValueError
        else Inr \<lparr>scheme = sch, netloc = loc,
                  path = fst (split_once (CHR ''?'') (fst (split_once (CHR ''#'') r2))),
                  query = snd (split_once (CHR ''?'') (fst (split_once (CHR ''#'') r2))),
                  fragment = snd (split_once (CHR ''#'') r2)\<rparr>)"
    by (simp add: urlsplit_def 1 2 split: prod.splits)
  from 1 2 3 4 show ?thesis by (rule that)
qed




lemmas url_defs = normalize_url_def urlparse_def urlsplit_def clean_url_def split_scheme_def
  has_scheme_def netloc_part_def splitnetloc_def split_once_def netloc_rejected_def splitparams_def
  uses_params_def rstrip_def lower_def isascii_def scheme_chars_def ascii_alpha_def ascii_upper_def
  ascii_digit_def c0_control_or_space_def unsafe_url_byte_def netloc_delim_def



lemma rstrip_append_keep: "x \<noteq> c \<Longrightarrow> rstrip (a @ x # b) c = a @ x # rstrip b c"
  by (simp add: rstrip_def dropWhile_append_stop)

lemma rstrip_append_nonempty: "rstrip x c \<noteq> [] \<Longrightarrow> rstrip (a @ x) c = a @ rstrip x c"
proof -
  assume "rstrip x c \<noteq> []"
  then have "dropWhile (\<lambda>y. y = c) (rev x) \<noteq> []" by (simp add: rstrip_def)
  then obtain y where "y \<in> set (rev x)" "y \<noteq> c"
    by (auto simp: dropWhile_eq_Nil_conv)
  then have "dropWhile (\<lambda>y. y = c) (rev x @ rev a) = dropWhile (\<lambda>y. y = c) (rev x) @ rev a"
    by (intro dropWhile_append1) auto
  then show ?thesis by (simp add: rstrip_def)
qed

lemma rstrip_append_empty: "rstrip x c = [] \<Longrightarrow> rstrip (a @ x) c = rstrip a c"
proof -
  assume "rstrip x c = []"
  then have "\<And>y. y \<in> set (rev x) \<Longrightarrow> y = c"
    by (auto simp: rstrip_def dropWhile_eq_Nil_conv)
  then have "dropWhile (\<lambda>y. y = c) (rev x @ rev a) = dropWhile (\<lambda>y. y = c) (rev a)"
    by (rule dropWhile_append2)
  then show ?thesis by (simp add: rstrip_def)
qed

lemma rstrip_last: "rstrip s c \<noteq> [] \<Longrightarrow> last (rstrip s c) \<noteq> c"
proof -
  assume a: "rstrip s c \<noteq> []"
  then have ne: "dropWhile (\<lambda>y. y = c) (rev s) \<noteq> []" by (simp add: rstrip_def)
  then have "hd (dropWhile (\<lambda>y. y = c) (rev s)) \<noteq> c"
    using hd_dropWhile [of "\<lambda>y. y = c" "rev s"] by simp
  with ne show ?thesis
    by (simp add: rstrip_def last_rev)
qed

lemma rstrip_fixed: "s = [] \<or> last s \<noteq> c \<Longrightarrow> rstrip s c = s"
  by (cases s rule: rev_cases) (auto simp: rstrip_def)

lemma rstrip_idem: "rstrip (rstrip s c) c = rstrip s c"
  using rstrip_last [of s c] by (intro rstrip_fixed) auto

lemma set_rstrip: "set (rstrip s c) \<subseteq> set s"
  using set_dropWhileD [of _ "\<lambda>y. y = c" "rev s"] by (auto simp: rstrip_def)

lemma rstrip_no_slash: "c \<notin> set a \<Longrightarrow> rstrip (a @ x) c = a @ rstrip x c"
proof (cases "rstrip x c = []")
  case True
  assume "c \<notin> set a"
  then have "rstrip a c = a"
    by (intro rstrip_fixed) (cases a rule: rev_cases, auto)
  with True show ?thesis by (simp add: rstrip_append_empty)
next
  case False
  then show ?thesis by (simp add: rstrip_append_nonempty)
qed

text \<open>The canonical form built from a scheme and the rest.\<close>

lemma rstrip_canonical:
  "rstrip (sch @ ''://'' @ x) (CHR ''/'') =
     (if rstrip x (CHR ''/'') = [] then sch @ '':'' else sch @ ''://'' @ rstrip x (CHR ''/''))"
proof -
  have 1: "rstrip (sch @ ''://'' @ x) (CHR ''/'') = sch @ CHR '':'' # rstrip (''//'' @ x) (CHR ''/'')"
    using rstrip_append_keep [of "CHR '':''" "CHR ''/''" sch "''//'' @ x"] by simp
  show ?thesis
  proof (cases "rstrip x (CHR ''/'') = []")
    case True
    have "rstrip (''//'' @ x) (CHR ''/'') = rstrip ''//'' (CHR ''/'')"
      using True by (rule rstrip_append_empty)
    also have "\<dots> = []" by (simp add: rstrip_def)
    finally show ?thesis using 1 True by simp
  next
    case False
    then have "rstrip (''//'' @ x) (CHR ''/'') = ''//'' @ rstrip x (CHR ''/'')"
      by (rule rstrip_append_nonempty)
    with 1 False show ?thesis by simp
  qed
qed

lemma lower_eq: "lower s = map lower_char s"
  by (simp add: lower_def lower_char_def)

lemma lower_char_facts:
  "scheme_chars c \<Longrightarrow> scheme_chars (lower_char c)"
  "ascii_alpha c \<Longrightarrow> ascii_alpha (lower_char c)"
  "\<not> ascii_upper (lower_char c)"
  by (auto simp: lower_char_def scheme_chars_def ascii_alpha_def ascii_upper_def ascii_digit_def)


lemma split_scheme_facts:
  assumes "split_scheme w = (sch, r)" and "sch \<noteq> []"
  shows "list_all scheme_chars sch" "ascii_alpha (hd sch)" "list_all (\<lambda>c. \<not> ascii_upper c) sch"
proof -
  let ?t = "takeWhile (\<lambda>c. c \<noteq> CHR '':'') w"
  from assms have h: "has_scheme w" and sch: "sch = map lower_char ?t"
    by (auto simp: split_scheme_def lower_eq split: if_splits)
  from h have t: "?t \<noteq> []" "ascii_alpha (hd w)" "list_all scheme_chars ?t"
    by (simp_all add: has_scheme_def)
  from t(1) have hd: "hd ?t = hd w"
    by (cases w) (auto split: if_splits)
  from t(3) show "list_all scheme_chars sch"
    unfolding sch by (auto simp: list_all_iff lower_char_facts(1))
  from t(1,2) hd show "ascii_alpha (hd sch)"
    unfolding sch by (simp add: hd_map lower_char_facts(2))
  show "list_all (\<lambda>c. \<not> ascii_upper c) sch"
    unfolding sch by (simp add: list_all_iff lower_char_facts(3))
qed




lemma last_segment_append:
  assumes "CHR ''/'' \<notin> set seg" and "before = [] \<or> last before = CHR ''/''"
  shows "last_segment (before @ seg) = seg"
    and "rev (dropWhile (\<lambda>c. c \<noteq> CHR ''/'') (rev (before @ seg))) = before"
proof -
  have seg: "\<And>x. x \<in> set (rev seg) \<Longrightarrow> x \<noteq> CHR ''/''"
    using assms(1) by auto
  have t: "takeWhile (\<lambda>c. c \<noteq> CHR ''/'') (rev before) = []"
    using assms(2) by (cases before rule: rev_cases) auto
  have d: "dropWhile (\<lambda>c. c \<noteq> CHR ''/'') (rev before) = rev before"
    using assms(2) by (cases before rule: rev_cases) auto
  have "takeWhile (\<lambda>c. c \<noteq> CHR ''/'') (rev seg @ rev before) = rev seg"
    using takeWhile_append2 [of "rev seg" "\<lambda>c. c \<noteq> CHR ''/''" "rev before", OF seg] t by simp
  then show "last_segment (before @ seg) = seg"
    by (simp add: last_segment_def)
  have "dropWhile (\<lambda>c. c \<noteq> CHR ''/'') (rev seg @ rev before) = rev before"
    using dropWhile_append2 [of "rev seg" "\<lambda>c. c \<noteq> CHR ''/''" "rev before", OF seg] d by simp
  then show "rev (dropWhile (\<lambda>c. c \<noteq> CHR ''/'') (rev (before @ seg))) = before"
    by simp
qed
















lemma split_once_fst: "c \<notin> set (fst (split_once c s))" "set (fst (split_once c s)) \<subseteq> set s"
proof -
  have 1: "c \<notin> set (takeWhile (\<lambda>x. x \<noteq> c) s)"
    by (metis (mono_tags, lifting) set_takeWhileD)
  have 2: "set (takeWhile (\<lambda>x. x \<noteq> c) s) \<subseteq> set s"
    by (meson set_takeWhileD subsetI)
  show "c \<notin> set (fst (split_once c s))"
    using 1 by (simp add: split_once_def)
  show "set (fst (split_once c s)) \<subseteq> set s"
    using 2 by (simp add: split_once_def)
qed

lemma set_fst_splitparams: "set (fst (splitparams s)) \<subseteq> set s"
proof -
  let ?seg = "rev (takeWhile (\<lambda>c. c \<noteq> CHR ''/'') (rev s))"
  let ?before = "rev (dropWhile (\<lambda>c. c \<noteq> CHR ''/'') (rev s))"
  have 1: "set ?before \<subseteq> set s"
  proof
    fix x assume "x \<in> set ?before"
    then have "x \<in> set (dropWhile (\<lambda>c. c \<noteq> CHR ''/'') (rev s))" by simp
    then have "x \<in> set (rev s)" by (rule set_dropWhileD)
    then show "x \<in> set s" by simp
  qed
  have 2: "set (takeWhile (\<lambda>c. c \<noteq> CHR '';'') ?seg) \<subseteq> set s"
  proof
    fix x assume "x \<in> set (takeWhile (\<lambda>c. c \<noteq> CHR '';'') ?seg)"
    then have "x \<in> set ?seg" by (rule set_takeWhileD [THEN conjunct1])
    then have "x \<in> set (takeWhile (\<lambda>c. c \<noteq> CHR ''/'') (rev s))" by simp
    then have "x \<in> set (rev s)" by (rule set_takeWhileD [THEN conjunct1])
    then show "x \<in> set s" by simp
  qed
  show ?thesis
  proof (cases "CHR ''/'' \<in> set s \<and> CHR '';'' \<notin> set ?seg")
    case True
    have "fst (splitparams s) = s"
      unfolding splitparams_def Let_def if_P [OF True] by (rule fst_conv)
    then show ?thesis by (simp only: subset_refl)
  next
    case False
    have "fst (splitparams s) = ?before @ takeWhile (\<lambda>c. c \<noteq> CHR '';'') ?seg"
      unfolding splitparams_def Let_def if_not_P [OF False] by (rule fst_conv)
    with 1 2 show ?thesis
      by (simp only: set_append Un_subset_iff)
  qed
qed

lemma urlparse_facts:
  assumes "urlparse lib u = Inr p"
  shows "\<exists>r. split_scheme (clean_url u) = (scheme p, r)"
    and "\<forall>c\<in>set (netloc p). \<not> netloc_delim c \<and> \<not> unsafe_url_byte c"
    and "\<forall>c\<in>set (path p). c \<noteq> CHR ''#'' \<and> c \<noteq> CHR ''?'' \<and> \<not> unsafe_url_byte c"
proof -
  obtain sch r loc r2 where st: "split_scheme (clean_url u) = (sch, r)" "netloc_part r = (loc, r2)"
    and us: "urlsplit lib u =
       (if netloc_rejected lib loc then Inl ValueError
        else Inr \<lparr>scheme = sch, netloc = loc,
                  path = fst (split_once (CHR ''?'') (fst (split_once (CHR ''#'') r2))),
                  query = snd (split_once (CHR ''?'') (fst (split_once (CHR ''#'') r2))),
                  fragment = snd (split_once (CHR ''#'') r2)\<rparr>)"
    by (rule urlsplit_stages)
  let ?p0 = "fst (split_once (CHR ''?'') (fst (split_once (CHR ''#'') r2)))"
  from assms us have p: "scheme p = sch" "netloc p = loc"
    "path p = ?p0 \<or> path p = fst (splitparams ?p0)"
    by (auto simp: urlparse_def split: if_splits prod.splits)
  have clean: "\<forall>c\<in>set (clean_url u). \<not> unsafe_url_byte c"
    by (simp add: clean_url_def)
  have r: "set r \<subseteq> set (clean_url u)"
    using st(1) by (rule split_scheme_subset)
  have r2: "set r2 \<subseteq> set r"
    using st(2) by (rule netloc_part_subset)
  have loc: "set loc \<subseteq> set r" "\<forall>c\<in>set loc. \<not> netloc_delim c"
    using st(2) set_takeWhileD [of _ "\<lambda>c. \<not> netloc_delim c" "drop 2 r"] set_drop_subset [of 2 r]
    by (auto simp: netloc_part_def splitnetloc_def split: if_splits)
  have p0: "set ?p0 \<subseteq> set r2" "CHR ''?'' \<notin> set ?p0" "CHR ''#'' \<notin> set ?p0"
    using split_once_fst [of "CHR ''?''" "fst (split_once (CHR ''#'') r2)"]
      split_once_fst [of "CHR ''#''" r2] by auto
  have pth: "set (path p) \<subseteq> set ?p0"
    using p(3) set_fst_splitparams [of ?p0] by auto
  show "\<exists>r. split_scheme (clean_url u) = (scheme p, r)"
    using st(1) p(1) by simp
  have "set (netloc p) \<subseteq> set (clean_url u)"
    using p(2) loc(1) r by blast
  with clean loc(2) p(2) show "\<forall>c\<in>set (netloc p). \<not> netloc_delim c \<and> \<not> unsafe_url_byte c"
    by blast
  have "set (path p) \<subseteq> set (clean_url u)"
    using pth p0(1) r2 r by blast
  with clean pth p0(2,3)
  show "\<forall>c\<in>set (path p). c \<noteq> CHR ''#'' \<and> c \<noteq> CHR ''?'' \<and> \<not> unsafe_url_byte c"
    by blast
qed



lemma normalize_url_nonempty:
  assumes "normalize_url lib u = Inr v"
  shows "v \<noteq> [] \<and> last v \<noteq> CHR ''/''"
proof -
  from assms obtain p where p: "urlparse lib u = Inr p"
    and v: "v = rstrip (scheme p @ ''://'' @ (netloc p @ path p)) (CHR ''/'')"
    by (auto simp: normalize_url_def split: sum.splits)
  let ?y = "rstrip (netloc p @ path p) (CHR ''/'')"
  show ?thesis
  proof (cases "?y = []")
    case True
    have "v = scheme p @ '':''"
      unfolding v rstrip_canonical if_P [OF True] by (rule refl)
    then show ?thesis by simp
  next
    case False
    have "v = scheme p @ ''://'' @ ?y"
      unfolding v rstrip_canonical if_not_P [OF False] by (rule refl)
    with False rstrip_last [of "netloc p @ path p" "CHR ''/''"] show ?thesis
      by simp
  qed
qed











section \<open>Properties of the path finder\<close>

lemma normalize_url_no_marks:
  assumes "normalize_url lib u = Inr v"
  shows "CHR ''?'' \<notin> set v \<and> CHR ''#'' \<notin> set v"
proof -
  from assms obtain p where p: "urlparse lib u = Inr p"
    and v: "v = rstrip (scheme p @ ''://'' @ netloc p @ path p) (CHR ''/'')"
    by (auto simp: normalize_url_def split: sum.splits)
  from urlparse_facts [OF p] obtain r where ss: "split_scheme (clean_url u) = (scheme p, r)"
    and loc: "\<And>c. c \<in> set (netloc p) \<Longrightarrow> \<not> netloc_delim c"
    and pth: "\<And>c. c \<in> set (path p) \<Longrightarrow> c \<noteq> CHR ''#'' \<and> c \<noteq> CHR ''?''"
    by blast
  have sch: "c \<noteq> CHR ''#'' \<and> c \<noteq> CHR ''?''" if "c \<in> set (scheme p)" for c
  proof -
    from that have "scheme p \<noteq> []" by auto
    from split_scheme_facts(1) [OF ss this] that have "scheme_chars c"
      by (simp add: list_all_iff)
    then show ?thesis
      by (auto simp: scheme_chars_def ascii_alpha_def ascii_upper_def ascii_digit_def)
  qed
  have "set v \<subseteq> set (scheme p @ ''://'' @ netloc p @ path p)"
    unfolding v by (rule set_rstrip)
  with sch loc pth show ?thesis
    by (auto simp: netloc_delim_def)
qed


lemma scan_links_Found:
  "scan_links lib target_url max_depth pth links visited queue = Found p \<Longrightarrow>
     p = pth @ [target_url]"
proof (induction links arbitrary: visited queue)
  case Nil
  then show ?case by simp
next
  case (Cons link links)
  show ?case
  proof (cases "normalize_url lib link")
    case (Inl e')
    with Cons.prems show ?thesis by simp
  next
    case (Inr v)
    with Cons.prems Cons.IH show ?thesis by (auto split: if_splits)
  qed
qed

lemma scan_links_Continue:
  "scan_links lib target_url max_depth pth links visited queue = Continue visited' queue' \<Longrightarrow>
     visited \<subseteq> visited'
     \<and> (\<exists>new. queue' = queue @ new
           \<and> (\<forall>node\<in>set new. snd node = pth @ [fst node] \<and> fst node \<notin> visited
                 \<and> fst node \<in> visited' \<and> fst node \<noteq> target_url
                 \<and> (\<exists>link. normalize_url lib link = Inr (fst node))
                 \<and> int (length pth) < max_depth))"
proof (induction links arbitrary: visited queue)
  case Nil
  then show ?case by simp
next
  case (Cons link links)
  show ?case
  proof (cases "normalize_url lib link")
    case (Inl e')
    with Cons.prems show ?thesis by simp
  next
    case (Inr v)
    show ?thesis
    proof (cases "v = target_url")
      case True
      with Inr Cons.prems show ?thesis by simp
    next
      case False
      show ?thesis
      proof (cases "v \<notin> visited \<and> int (length pth) < max_depth")
        case True
        with Inr False Cons.prems have
          "scan_links lib target_url max_depth pth links (insert v visited)
             (queue @ [(v, pth @ [v])]) = Continue visited' queue'"
          by simp
        from Cons.IH [OF this] obtain new where sub: "insert v visited \<subseteq> visited'"
          and q: "queue' = (queue @ [(v, pth @ [v])]) @ new"
          and new: "\<forall>node\<in>set new. snd node = pth @ [fst node] \<and> fst node \<notin> insert v visited
                 \<and> fst node \<in> visited' \<and> fst node \<noteq> target_url
                 \<and> (\<exists>link. normalize_url lib link = Inr (fst node))
                 \<and> int (length pth) < max_depth"
          by blast
        have "\<forall>node\<in>set ((v, pth @ [v]) # new). snd node = pth @ [fst node]
                 \<and> fst node \<notin> visited
                 \<and> fst node \<in> visited' \<and> fst node \<noteq> target_url
                 \<and> (\<exists>link. normalize_url lib link = Inr (fst node))
                 \<and> int (length pth) < max_depth"
          using new sub True False Inr by auto
        moreover from q have "queue' = queue @ ((v, pth @ [v]) # new)" by simp
        moreover from sub have "visited \<subseteq> visited'" by auto
        ultimately show ?thesis by blast
      next
        case no: False
        with Inr False Cons.prems have
          "scan_links lib target_url max_depth pth links visited queue = Continue visited' queue'"
          by auto
        from Cons.IH [OF this] show ?thesis .
      qed
    qed
  qed
qed


lemma bfs_path:
  "bfs lib net extract_links target_url max_depth s visited queue = Inr (Some p, s') \<Longrightarrow>
   \<forall>node\<in>set queue. snd node \<noteq> [] \<and> hd (snd node) = start \<and> distinct (snd node)
       \<and> set (snd node) \<subseteq> visited \<and> target_url \<notin> set (snd node)
       \<and> (\<forall>x\<in>set (snd node). \<exists>link. normalize_url lib link = Inr x) \<Longrightarrow>
   \<exists>pth. p = pth @ [target_url] \<and> pth \<noteq> [] \<and> hd pth = start \<and> distinct pth
       \<and> target_url \<notin> set pth \<and> (\<forall>x\<in>set pth. \<exists>link. normalize_url lib link = Inr x)"
proof (induction lib net extract_links target_url max_depth s visited queue rule: bfs.induct)
  case (1 lib net extract_links target_url max_depth s visited)
  then show ?case by (simp add: bfs.simps)
next
  case (2 lib net extract_links target_url max_depth s visited current_url pth queue)
  from "2.prems"(2) have rest: "\<forall>node\<in>set queue. snd node \<noteq> [] \<and> hd (snd node) = start
       \<and> distinct (snd node)
       \<and> set (snd node) \<subseteq> visited \<and> target_url \<notin> set (snd node)
       \<and> (\<forall>x\<in>set (snd node). \<exists>link. normalize_url lib link = Inr x)"
    by simp
  from "2.prems"(2) have head: "pth \<noteq> []" "hd pth = start" "distinct pth" "set pth \<subseteq> visited"
    "target_url \<notin> set pth" "\<forall>x\<in>set pth. \<exists>link. normalize_url lib link = Inr x"
    by simp_all
  show ?case
  proof (cases "max_depth < int (length pth)")
    case True
    with "2.prems"(1)
    have "bfs lib net extract_links target_url max_depth s visited queue = Inr (Some p, s')"
      by (simp add: bfs.simps)
    from "2.IH"(1) [OF True this rest] show ?thesis .
  next
    case False
    from "2.prems"(1) False obtain content s1 where
      g: "get_page_content net s current_url = Inr (content, s1)"
      by (auto simp: bfs.simps split: sum.splits)
    show ?thesis
    proof (cases content)
      case None
      with "2.prems"(1) False g
      have "bfs lib net extract_links target_url max_depth s1 visited queue = Inr (Some p, s')"
        by (simp add: bfs.simps)
      from "2.IH"(2) [OF False g refl None this rest] show ?thesis .
    next
      case (Some body)
      show ?thesis
      proof (cases "body = []")
        case True
        with "2.prems"(1) False g Some
        have "bfs lib net extract_links target_url max_depth s1 visited queue = Inr (Some p, s')"
          by (simp add: bfs.simps)
        from "2.IH"(3) [OF False g refl Some True this rest] show ?thesis .
      next
        case nonempty: False
        from "2.prems"(1) False g Some nonempty obtain links where
          ex: "extract_links body current_url = Inr links"
          by (auto simp: bfs.simps split: sum.splits)
        show ?thesis
        proof (cases "scan_links lib target_url max_depth pth links visited queue")
          case (Raised e)
          with "2.prems"(1) False g Some nonempty ex show ?thesis by (simp add: bfs.simps)
        next
          case (Found p')
          with "2.prems"(1) False g Some nonempty ex have "p = p'" by (simp add: bfs.simps)
          with scan_links_Found [OF Found] have "p = pth @ [target_url]" by simp
          with head show ?thesis by blast
        next
          case (Continue visited' queue')
          with "2.prems"(1) False g Some nonempty ex
          have run: "bfs lib net extract_links target_url max_depth s1 visited' queue'
                       = Inr (Some p, s')"
            by (simp add: bfs.simps)
          from scan_links_Continue [OF Continue] obtain new where sub: "visited \<subseteq> visited'"
            and q: "queue' = queue @ new"
            and new: "\<forall>node\<in>set new. snd node = pth @ [fst node] \<and> fst node \<notin> visited
                 \<and> fst node \<in> visited' \<and> fst node \<noteq> target_url
                 \<and> (\<exists>link. normalize_url lib link = Inr (fst node))
                 \<and> int (length pth) < max_depth"
            by blast
          have "\<forall>node\<in>set queue'. snd node \<noteq> [] \<and> hd (snd node) = start
              \<and> distinct (snd node)
              \<and> set (snd node) \<subseteq> visited' \<and> target_url \<notin> set (snd node)
              \<and> (\<forall>x\<in>set (snd node). \<exists>link. normalize_url lib link = Inr x)"
          proof
            fix node assume "node \<in> set queue'"
            with q consider (old) "node \<in> set queue" | (fresh) "node \<in> set new" by auto
            then show "snd node \<noteq> [] \<and> hd (snd node) = start
              \<and> distinct (snd node)
              \<and> set (snd node) \<subseteq> visited' \<and> target_url \<notin> set (snd node)
              \<and> (\<forall>x\<in>set (snd node). \<exists>link. normalize_url lib link = Inr x)"
            proof cases
              case old
              with rest sub show ?thesis by blast
            next
              case fresh
              with new have n: "snd node = pth @ [fst node]"
                "fst node \<notin> visited" "fst node \<in> visited'" "fst node \<noteq> target_url"
                "\<exists>link. normalize_url lib link = Inr (fst node)"
                by blast+
              from n(1) head(1,2) have "snd node \<noteq> []" "hd (snd node) = start" by simp_all
              moreover from n(1,2) head(3,4) have "distinct (snd node)" by auto
              moreover from n(1,3) head(4) sub have "set (snd node) \<subseteq> visited'" by auto
              moreover from n(1,4) head(5) have "target_url \<notin> set (snd node)" by auto
              moreover from n(1,5) head(6)
              have "\<forall>x\<in>set (snd node). \<exists>link. normalize_url lib link = Inr x" by auto
              ultimately show ?thesis by blast
            qed
          qed
          from "2.IH"(4) [OF False g refl Some nonempty ex Continue run this] show ?thesis .
        qed
      qed
    qed
  qed
qed

lemma site_normalize:
  "normalize_url lib ''http://w/a'' = Inr ''http://w/a''"
  "normalize_url lib ''http://w/a/'' = Inr ''http://w/a''"
  "normalize_url lib ''http://w/b/'' = Inr ''http://w/b''"
  "normalize_url lib ''http://w/c'' = Inr ''http://w/c''"
  by (simp_all add: url_defs)

lemma normalize_url_bracket: "normalize_url strict_library ''http://['' = Inl ValueError"
  by (simp add: url_defs)

lemma site_run:
  "find_path strict_library site_net site_links ''http://w/a/'' ''http://w/c'' 5 example_finder
   = Inr (Some [''http://w/a'', ''http://w/b'', ''http://w/c''],
          \<lparr>rate_limit = 2, cache = [''http://w/a'' \<mapsto> ''A'', ''http://w/b'' \<mapsto> ''B''],
           semaphore = 2, request_times = [0, 1 / 10], clock = 1 / 5,
           sent = [''http://w/a'', ''http://w/b'']\<rparr>)"
  by (simp add: find_path_def site_normalize bfs.simps get_page_content_def site_net_def
        site_links_def example_finder_def rate_limit_request_def raise_for_status_def Let_def)

text \<open>C3, as claimed: \<open>find_path(X, X, d)\<close> returns \<open>[X]\<close>. For \<open>X = http://w/a/\<close> it
  returns the path of the canonical form, \<open>[http://w/a]\<close>; and for \<open>X = http://[\<close>, which
  \<open>urlparse\<close> rejects, it raises \<open>ValueError\<close>.\<close>

theorem C3_self_path_counterexample:
  "find_path strict_library site_net site_links ''http://w/a/'' ''http://w/a/'' 5 example_finder
     = Inr (Some [''http://w/a''], example_finder)
   \<and> find_path strict_library site_net site_links ''http://w/a/'' ''http://w/a/'' 5 example_finder
     \<noteq> Inr (Some [''http://w/a/''], example_finder)
   \<and> find_path strict_library site_net site_links ''http://['' ''http://['' 5 example_finder
     = Inl ValueError"
  by (simp add: find_path_def site_normalize normalize_url_bracket)

text \<open>C3, amended: when the two URLs have the same canonical form, \<open>find_path\<close> returns
  the path that holds this canonical form and leaves the finder as it was: nothing is
  fetched and nothing is sent. So \<open>find_path(X, X, d)\<close> returns \<open>[normalize(X)]\<close>, which is
  \<open>[X]\<close> when \<open>X\<close> is its own canonical form, for every depth bound. When \<open>urlparse\<close>
  rejects \<open>X\<close>, the \<open>ValueError\<close> leaves \<open>find_path\<close>.\<close>

theorem C3_self_path:
  "(normalize_url lib x = Inr v \<longrightarrow> normalize_url lib y = Inr v \<longrightarrow>
      find_path lib net extract_links x y max_depth s = Inr (Some [v], s))
   \<and> (normalize_url lib z = Inr z \<longrightarrow>
        find_path lib net extract_links z z max_depth s = Inr (Some [z], s))
   \<and> (normalize_url lib w = Inl e \<longrightarrow> find_path lib net extract_links w w max_depth s = Inl e)"
  by (simp add: find_path_def)

theorem C3_self_path_witness:
  "normalize_url strict_library ''http://w/a/'' = Inr ''http://w/a''
   \<and> normalize_url strict_library ''http://w/a'' = Inr ''http://w/a''
   \<and> normalize_url strict_library ''http://['' = Inl ValueError
   \<and> find_path strict_library site_net site_links ''http://w/a/'' ''http://w/a'' 0 example_finder
       = Inr (Some [''http://w/a''], example_finder)
   \<and> find_path strict_library site_net site_links ''http://w/a'' ''http://w/a'' 0 example_finder
       = Inr (Some [''http://w/a''], example_finder)
   \<and> find_path strict_library site_net site_links ''http://['' ''http://['' 0 example_finder
       = Inl ValueError"
  using C3_self_path [of strict_library "''http://w/a/''" "''http://w/a''" "''http://w/a''"
      site_net site_links 0 example_finder "''http://w/a''" "''http://[''" ValueError]
  by (simp add: site_normalize normalize_url_bracket)




text \<open>C9: a path that \<open>find_path\<close> returns is not empty, its URLs are pairwise distinct,
  the first is the canonical form of the start and the last the canonical form of the
  target, and each of them is a value returned by \<open>normalize_url\<close>, so that it is not
  empty, does not end in \<open>/\<close> and has no query string and no fragment.\<close>

theorem C9_returned_path:
  assumes "find_path lib net extract_links start_url target_url max_depth s = Inr (Some p, s')"
  shows "p \<noteq> [] \<and> distinct p
       \<and> normalize_url lib start_url = Inr (hd p)
       \<and> normalize_url lib target_url = Inr (last p)
       \<and> (\<forall>v\<in>set p. (\<exists>link. normalize_url lib link = Inr v)
              \<and> v \<noteq> [] \<and> last v \<noteq> CHR ''/'' \<and> CHR ''?'' \<notin> set v \<and> CHR ''#'' \<notin> set v)"
proof -
  from assms obtain start target where start: "normalize_url lib start_url = Inr start"
    and target: "normalize_url lib target_url = Inr target"
    by (auto simp: find_path_def split: sum.splits)
  have shape: "\<forall>v\<in>set p. (\<exists>link. normalize_url lib link = Inr v)
              \<and> v \<noteq> [] \<and> last v \<noteq> CHR ''/'' \<and> CHR ''?'' \<notin> set v \<and> CHR ''#'' \<notin> set v"
    if "\<forall>v\<in>set p. \<exists>link. normalize_url lib link = Inr v"
  proof
    fix v assume "v \<in> set p"
    with that obtain link where l: "normalize_url lib link = Inr v" by blast
    from normalize_url_nonempty [OF l] normalize_url_no_marks [OF l] l
    show "(\<exists>link. normalize_url lib link = Inr v)
              \<and> v \<noteq> [] \<and> last v \<noteq> CHR ''/'' \<and> CHR ''?'' \<notin> set v \<and> CHR ''#'' \<notin> set v"
      by blast
  qed
  show ?thesis
  proof (cases "start = target")
    case True
    with assms start target have p: "p = [start]" by (simp add: find_path_def)
    with start have "\<forall>v\<in>set p. \<exists>link. normalize_url lib link = Inr v" by auto
    from shape [OF this] p start target True show ?thesis by simp
  next
    case False
    with assms start target
    have run: "bfs lib net extract_links target max_depth s {start} [(start, [start])]
                 = Inr (Some p, s')"
      by (simp add: find_path_def)
    have "\<forall>node\<in>set [(start, [start])]. snd node \<noteq> [] \<and> hd (snd node) = start
       \<and> distinct (snd node)
       \<and> set (snd node) \<subseteq> {start} \<and> target \<notin> set (snd node)
       \<and> (\<forall>x\<in>set (snd node). \<exists>link. normalize_url lib link = Inr x)"
      using False start by auto
    from bfs_path [OF run this] obtain pth where p: "p = pth @ [target]" and pth: "pth \<noteq> []"
      "hd pth = start" "distinct pth" "target \<notin> set pth"
      "\<forall>x\<in>set pth. \<exists>link. normalize_url lib link = Inr x"
      by blast
    from p pth(5) target have "\<forall>v\<in>set p. \<exists>link. normalize_url lib link = Inr v" by auto
    from shape [OF this] p pth start target show ?thesis by simp
  qed
qed

theorem C9_returned_path_witness:
  "find_path strict_library site_net site_links ''http://w/a/'' ''http://w/c'' 5 example_finder
       = Inr (Some [''http://w/a'', ''http://w/b'', ''http://w/c''],
          \<lparr>rate_limit = 2, cache = [''http://w/a'' \<mapsto> ''A'', ''http://w/b'' \<mapsto> ''B''],
           semaphore = 2, request_times = [0, 1 / 10], clock = 1 / 5,
           sent = [''http://w/a'', ''http://w/b'']\<rparr>)
   \<and> distinct [''http://w/a'', ''http://w/b'', ''http://w/c'']
   \<and> normalize_url strict_library ''http://w/a/'' = Inr ''http://w/a''
   \<and> normalize_url strict_library ''http://w/c'' = Inr ''http://w/c''"
  using C9_returned_path [OF site_run] site_run
  by simp

end
